theory Spec2Isabelle
  imports Main
begin

text \<open>
  The streaming log pipeline of QuickAdrLogcat: the worker \<open>logParser.worker.js\<close> (line
  reassembly, record parsing, batch scheduling, the \<open>clear\<close> command) and the part of
  \<open>LogcatViewer.jsx\<close> that receives the batches (staging buffer, coalescing timer, bounded
  view). Module variables and refs are fields of a state record, every handler is a
  function from state to state, timers are kept in an explicit event loop, and what the
  worker posts is appended to a list.
\<close>

section \<open>JavaScript library functions used by the pipeline\<close>

text \<open>
  Strings are lists of characters. \<open>String.prototype.split\<close> with a one-character
  separator scans the text once and closes a piece at every separator; the text after the
  last separator (possibly empty) is the last piece, so the result is never empty.
\<close>

fun split_acc :: "'a \<Rightarrow> 'a list \<Rightarrow> 'a list \<Rightarrow> 'a list list" where
  "split_acc sep cur [] = [cur]"
| "split_acc sep cur (x # xs) =
     (if x = sep then cur # split_acc sep [] xs else split_acc sep (cur @ [x]) xs)"

definition split :: "'a \<Rightarrow> 'a list \<Rightarrow> 'a list list" where
  "split sep s = split_acc sep [] s"

text \<open>
  \<open>Array.prototype.pop\<close> removes the last element and returns it, or returns
  \<open>undefined\<close> (here \<open>None\<close>) on an empty array.
\<close>

definition pop :: "'a list \<Rightarrow> 'a option \<times> 'a list" where
  "pop xs = (if xs = [] then (None, []) else (Some (last xs), butlast xs))"

text \<open>
  \<open>v || ''\<close> on a string or \<open>undefined\<close>: both \<open>undefined\<close> and the empty string are
  falsy and give the empty string.
\<close>

definition or_empty :: "string option \<Rightarrow> string" where
  "or_empty v = (case v of None \<Rightarrow> [] | Some s \<Rightarrow> (if s = [] then [] else s))"

text \<open>
  \<open>Array.prototype.slice(start)\<close> with one argument: a negative start counts from the
  end and is clamped at the beginning of the array.
\<close>

definition slice :: "int \<Rightarrow> 'a list \<Rightarrow> 'a list" where
  "slice start xs =
     (let n = int (length xs);
          k = (if start < 0 then max (n + start) 0 else min start n)
      in drop (nat k) xs)"

section \<open>Line Reassembler (logParser.worker.js, lines 43-45)\<close>

definition newline :: char where
  "newline = CHR 0x0A"

text \<open>
  \<open>buffer += data; const lines = buffer.split('\n'); buffer = lines.pop() || '';\<close>
  The result is the array \<open>lines\<close> after the pop and the new value of \<open>buffer\<close>.
\<close>

definition reassemble :: "string \<Rightarrow> string \<Rightarrow> string list \<times> string" where
  "reassemble buffer data =
     (let buffer1 = buffer @ data;
          lines = split newline buffer1;
          (popped, lines1) = pop lines
      in (lines1, or_empty popped))"

text \<open>A sequence of chunks fed one by one, collecting the complete lines of every call.\<close>

fun feed :: "string \<Rightarrow> string list \<Rightarrow> string list \<times> string" where
  "feed buffer [] = ([], buffer)"
| "feed buffer (c # cs) =
     (let (ls, buffer1) = reassemble buffer c;
          (ls', buffer2) = feed buffer1 cs
      in (ls @ ls', buffer2))"

section \<open>Aggregation Buffer: the bounded view (LogcatViewer.jsx, lines 114-117)\<close>

definition MAX_LOGS :: nat where
  "MAX_LOGS = 1000"

text \<open>The updater passed to \<open>setLogs\<close>: append, then keep the last \<open>MAX_LOGS\<close>.\<close>

definition merge_logs :: "'a list \<Rightarrow> 'a list \<Rightarrow> 'a list" where
  "merge_logs prevLogs logsToAdd =
     (let updatedLogs = prevLogs @ logsToAdd in slice (- int MAX_LOGS) updatedLogs)"

section \<open>Regular-expression matching as \<open>String.prototype.match\<close> performs it\<close>

text \<open>
  Only the constructs that occur in \<open>logRegex\<close> are modelled: character classes,
  counted and unbounded repetition of one class (greedy and lazy), and capture groups that
  are neither nested nor repeated. Characters are the 256 values of \<open>char\<close>, so of the
  code units that \<open>\s\<close> and \<open>.\<close> single out only those below 256 appear.
\<close>

datatype cls =
    Digit             \<comment> \<open>\<open>\d\<close>\<close>
  | Space             \<comment> \<open>\<open>\s\<close>\<close>
  | Lit char          \<comment> \<open>a literal character\<close>
  | OneOf string      \<comment> \<open>\<open>[...]\<close>\<close>
  | NoneOf string     \<comment> \<open>\<open>[^...]\<close>\<close>
  | Dot               \<comment> \<open>\<open>.\<close> without the \<open>s\<close> flag\<close>

fun in_cls :: "cls \<Rightarrow> char \<Rightarrow> bool" where
  "in_cls Digit x = (x \<in> set ''0123456789'')"
| "in_cls Space x =
     (x \<in> set [CHR 0x09, CHR 0x0A, CHR 0x0B, CHR 0x0C, CHR 0x0D, CHR 0x20, CHR 0xA0])"
| "in_cls (Lit c) x = (x = c)"
| "in_cls (OneOf cs) x = (x \<in> set cs)"
| "in_cls (NoneOf cs) x = (x \<notin> set cs)"
| "in_cls Dot x = (x \<notin> set [CHR 0x0A, CHR 0x0D])"

datatype item =
    One cls           \<comment> \<open>one character of the class\<close>
  | Rep nat cls       \<comment> \<open>\<open>c{n}\<close>\<close>
  | Plus cls          \<comment> \<open>\<open>c+\<close>, greedy\<close>
  | PlusLazy cls      \<comment> \<open>\<open>c+?\<close>, lazy\<close>
  | Star cls          \<comment> \<open>\<open>c*\<close>, greedy\<close>
  | StarLazy cls      \<comment> \<open>\<open>c*?\<close>, lazy\<close>
  | Open              \<comment> \<open>\<open>(\<close>\<close>
  | Close             \<comment> \<open>\<open>)\<close>\<close>

text \<open>
  The captures: the groups closed so far, in order, and the text of the group that is
  open, if one is. Backtracking returns to the captures of the choice point.
\<close>

type_synonym captures = "string list \<times> string option"

definition consume :: "char \<Rightarrow> captures \<Rightarrow> captures" where
  "consume x cs = (fst cs, map_option (\<lambda>w. w @ [x]) (snd cs))"

definition open_group :: "captures \<Rightarrow> captures" where
  "open_group cs = (fst cs, Some [])"

definition close_group :: "captures \<Rightarrow> captures" where
  "close_group cs = (fst cs @ [case snd cs of None \<Rightarrow> [] | Some w \<Rightarrow> w], None)"

text \<open>
  The backtracking matcher, anchored at the start of the text: a greedy repetition tries
  one more character before it tries the rest of the pattern, a lazy one the other way
  round; the first alternative that lets the whole pattern match wins.
\<close>

fun rx_match :: "item list \<Rightarrow> string \<Rightarrow> captures \<Rightarrow> string list option" where
  "rx_match [] s cs = Some (fst cs)"
| "rx_match (Open # r) s cs = rx_match r s (open_group cs)"
| "rx_match (Close # r) s cs = rx_match r s (close_group cs)"
| "rx_match (One k # r) [] cs = None"
| "rx_match (One k # r) (x # xs) cs =
     (if in_cls k x then rx_match r xs (consume x cs) else None)"
| "rx_match (Rep n k # r) [] cs = (if n = 0 then rx_match r [] cs else None)"
| "rx_match (Rep n k # r) (x # xs) cs =
     (if n = 0 then rx_match r (x # xs) cs
      else if in_cls k x then rx_match (Rep (n - 1) k # r) xs (consume x cs) else None)"
| "rx_match (Plus k # r) [] cs = None"
| "rx_match (Plus k # r) (x # xs) cs =
     (if in_cls k x then rx_match (Star k # r) xs (consume x cs) else None)"
| "rx_match (PlusLazy k # r) [] cs = None"
| "rx_match (PlusLazy k # r) (x # xs) cs =
     (if in_cls k x then rx_match (StarLazy k # r) xs (consume x cs) else None)"
| "rx_match (Star k # r) [] cs = rx_match r [] cs"
| "rx_match (Star k # r) (x # xs) cs =
     (if in_cls k x
      then (case rx_match (Star k # r) xs (consume x cs) of
              Some res \<Rightarrow> Some res
            | None \<Rightarrow> rx_match r (x # xs) cs)
      else rx_match r (x # xs) cs)"
| "rx_match (StarLazy k # r) [] cs = rx_match r [] cs"
| "rx_match (StarLazy k # r) (x # xs) cs =
     (case rx_match r (x # xs) cs of
        Some res \<Rightarrow> Some res
      | None \<Rightarrow> (if in_cls k x then rx_match (StarLazy k # r) xs (consume x cs) else None))"

text \<open>
  A pattern without the \<open>g\<close> or \<open>y\<close> flag is tried at every start index from the left;
  the first index where it matches gives the result.
\<close>

fun rx_search :: "item list \<Rightarrow> string \<Rightarrow> string list option" where
  "rx_search re [] = rx_match re [] ([], None)"
| "rx_search re (x # xs) =
     (case rx_match re (x # xs) ([], None) of
        Some res \<Rightarrow> Some res
      | None \<Rightarrow> rx_search re xs)"

section \<open>Record Parser (logParser.worker.js, lines 9-27)\<close>

text \<open>
  \<open>/(\d{2}-\d{2}\s\d{2}:\d{2}:\d{2}\.\d{3})\s+(\d+)\s+(\d+)\s+([VDIWEAF])\s+([^:]+?):\s+(.+)/\<close>
\<close>

definition logRegex :: "item list" where
  "logRegex =
     [Open, Rep 2 Digit, One (Lit (CHR ''-'')), Rep 2 Digit, One Space,
            Rep 2 Digit, One (Lit (CHR '':'')), Rep 2 Digit, One (Lit (CHR '':'')),
            Rep 2 Digit, One (Lit (CHR ''.'')), Rep 3 Digit, Close,
      Plus Space, Open, Plus Digit, Close,
      Plus Space, Open, Plus Digit, Close,
      Plus Space, Open, One (OneOf ''VDIWEAF''), Close,
      Plus Space, Open, PlusLazy (NoneOf '':''), Close,
      One (Lit (CHR '':'')), Plus Space, Open, Plus Dot, Close]"

record log_record =
  timestamp :: string
  pid :: string
  tid :: string
  level :: string
  tag :: string
  message :: string
  key :: string

text \<open>
  \<open>Math.random()\<close> is a parameter: \<open>rnd i\<close> is the text that the template literal makes
  of the value returned by the \<open>i\<close>-th call, and the count of calls made so far is
  threaded through. A call is made only when the line matches.
\<close>

definition make_key :: "string \<Rightarrow> string \<Rightarrow> string \<Rightarrow> string \<Rightarrow> string \<Rightarrow> string" where
  "make_key ts p t tg r = ts @ ''-'' @ p @ ''-'' @ t @ ''-'' @ tg @ ''-'' @ r"

definition parseLogLine :: "(nat \<Rightarrow> string) \<Rightarrow> nat \<Rightarrow> string \<Rightarrow> log_record option \<times> nat" where
  "parseLogLine rnd calls line =
     (case rx_search logRegex line of
        Some [ts, p, t, lv, tg, msg] \<Rightarrow>
          (Some \<lparr>timestamp = ts, pid = p, tid = t, level = lv, tag = tg, message = msg,
                 key = make_key ts p t tg (rnd calls)\<rparr>,
           Suc calls)
      | _ \<Rightarrow> (None, calls))"

text \<open>\<open>lines.map(parseLogLine).filter(Boolean)\<close>: a record is truthy, \<open>null\<close> is dropped.\<close>

fun parse_lines :: "(nat \<Rightarrow> string) \<Rightarrow> nat \<Rightarrow> string list \<Rightarrow> log_record list \<times> nat" where
  "parse_lines rnd calls [] = ([], calls)"
| "parse_lines rnd calls (l # ls) =
     (let (r, calls1) = parseLogLine rnd calls l;
          (rs, calls2) = parse_lines rnd calls1 ls
      in ((case r of None \<Rightarrow> rs | Some v \<Rightarrow> v # rs), calls2))"

section \<open>The line grammar as a language\<close>

text \<open>
  What a pattern generates, without any order among the alternatives: \<open>generates re s\<close>
  holds when the text \<open>s\<close> starts with a word of the pattern \<open>re\<close>. Groups do not change
  the words, and a lazy repetition has the words of the greedy one.
\<close>

definition word_of :: "cls \<Rightarrow> string \<Rightarrow> bool" where
  "word_of k u = list_all (in_cls k) u"

primrec generates :: "item list \<Rightarrow> string \<Rightarrow> bool" where
  "generates [] = (\<lambda>s. True)"
| "generates (i # r) =
     (\<lambda>s. case i of
        Open \<Rightarrow> generates r s
      | Close \<Rightarrow> generates r s
      | One k \<Rightarrow> (\<exists>x xs. s = x # xs \<and> in_cls k x \<and> generates r xs)
      | Rep n k \<Rightarrow> (\<exists>u v. s = u @ v \<and> length u = n \<and> word_of k u \<and> generates r v)
      | Plus k \<Rightarrow> (\<exists>u v. s = u @ v \<and> u \<noteq> [] \<and> word_of k u \<and> generates r v)
      | PlusLazy k \<Rightarrow> (\<exists>u v. s = u @ v \<and> u \<noteq> [] \<and> word_of k u \<and> generates r v)
      | Star k \<Rightarrow> (\<exists>u v. s = u @ v \<and> word_of k u \<and> generates r v)
      | StarLazy k \<Rightarrow> (\<exists>u v. s = u @ v \<and> word_of k u \<and> generates r v))"

text \<open>
  A line matches the line grammar when a word of \<open>logRegex\<close> occurs in it: a timestamp,
  whitespace, digits, whitespace, digits, whitespace, one of the letters \<open>VDIWEAF\<close>,
  whitespace, a non-empty tag without a colon, a colon, whitespace, and a non-empty
  message without a line terminator.
\<close>

definition grammar_line :: "string \<Rightarrow> bool" where
  "grammar_line line = (\<exists>pre rest. line = pre @ rest \<and> generates logRegex rest)"

section \<open>Timers of an execution context\<close>

text \<open>
  Each of the two contexts has its own event loop: a clock in milliseconds, the timeouts
  that are set and have neither fired nor been cleared (handle and due time), and the next
  handle. Handles are positive integers, so a handle is truthy. In either context every
  timeout of the pipeline is set with the same callback, so the callback is not stored.
\<close>

record event_loop =
  timers :: "(nat \<times> nat) list"
  nextTimer :: nat
  clock :: nat

definition setTimeout :: "nat \<Rightarrow> 'a event_loop_scheme \<Rightarrow> nat \<times> 'a event_loop_scheme" where
  "setTimeout delay st =
     (nextTimer st,
      st\<lparr>timers := timers st @ [(nextTimer st, clock st + delay)],
         nextTimer := Suc (nextTimer st)\<rparr>)"

definition clearTimeout :: "nat \<Rightarrow> 'a event_loop_scheme \<Rightarrow> 'a event_loop_scheme" where
  "clearTimeout h st = st\<lparr>timers := filter (\<lambda>t. fst t \<noteq> h) (timers st)\<rparr>"

text \<open>A timeout can fire once the clock has reached its due time.\<close>

definition due :: "nat \<Rightarrow> 'a event_loop_scheme \<Rightarrow> bool" where
  "due h st = (case find (\<lambda>t. fst t = h) (timers st) of
                 None \<Rightarrow> False
               | Some t \<Rightarrow> snd t \<le> clock st)"

text \<open>Truthiness of a variable that holds \<open>null\<close> or a timer handle.\<close>

definition truthy :: "nat option \<Rightarrow> bool" where
  "truthy v = (case v of None \<Rightarrow> False | Some h \<Rightarrow> h \<noteq> 0)"

section \<open>Batch Scheduler and Control Channel (logParser.worker.js, lines 1-5 and 29-78)\<close>

definition BATCH_INTERVAL :: nat where
  "BATCH_INTERVAL = 150"

definition BATCH_SIZE :: nat where
  "BATCH_SIZE = 200"

text \<open>
  The worker's module variables, the batches it has posted to the main thread, in order,
  and the number of \<open>Math.random()\<close> calls made so far.
\<close>

record worker = event_loop +
  buffer :: string
  parsedLogsBuffer :: "log_record list"
  timeoutId :: "nat option"
  posted :: "log_record list list"
  calls :: nat

definition worker_init :: worker where
  "worker_init =
     \<lparr>timers = [], nextTimer = 1, clock = 0,
      buffer = [], parsedLogsBuffer = [], timeoutId = None, posted = [], calls = 0\<rparr>"

definition sendBatch :: "worker \<Rightarrow> worker" where
  "sendBatch st =
     (let st1 = (if length (parsedLogsBuffer st) > 0
                 then st\<lparr>posted := posted st @ [parsedLogsBuffer st], parsedLogsBuffer := []\<rparr>
                 else st)
      in (case timeoutId st1 of
            None \<Rightarrow> st1
          | Some h \<Rightarrow> (if truthy (Some h)
                        then (clearTimeout h st1)\<lparr>timeoutId := None\<rparr>
                        else st1)))"

text \<open>Lines 53-61: what is done with a non-empty array of newly parsed records.\<close>

definition submit :: "log_record list \<Rightarrow> worker \<Rightarrow> worker" where
  "submit newlyParsed st =
     (let st1 = st\<lparr>parsedLogsBuffer := parsedLogsBuffer st @ newlyParsed\<rparr>
      in if length (parsedLogsBuffer st1) \<ge> BATCH_SIZE then sendBatch st1
         else if \<not> truthy (timeoutId st1)
              then (let (h, st2) = setTimeout BATCH_INTERVAL st1 in st2\<lparr>timeoutId := Some h\<rparr>)
              else st1)"

text \<open>The \<open>type\<close> of a message to the worker, with its payload.\<close>

datatype worker_msg = Process string | Clear | Other_msg

definition process :: "(nat \<Rightarrow> string) \<Rightarrow> string \<Rightarrow> worker \<Rightarrow> worker" where
  "process rnd data st =
     (let (lines, buffer1) = reassemble (buffer st) data;
          st1 = st\<lparr>buffer := buffer1\<rparr>
      in if length lines > 0
         then (let (newlyParsed, calls1) = parse_lines rnd (calls st1) lines;
                   st2 = st1\<lparr>calls := calls1\<rparr>
               in if length newlyParsed > 0 then submit newlyParsed st2 else st2)
         else st1)"

definition clear :: "worker \<Rightarrow> worker" where
  "clear st =
     (let st1 = st\<lparr>buffer := [], parsedLogsBuffer := []\<rparr>
      in (case timeoutId st1 of
            None \<Rightarrow> st1
          | Some h \<Rightarrow> (if truthy (Some h)
                        then (clearTimeout h st1)\<lparr>timeoutId := None\<rparr>
                        else st1)))"

definition onmessage :: "(nat \<Rightarrow> string) \<Rightarrow> worker_msg \<Rightarrow> worker \<Rightarrow> worker" where
  "onmessage rnd m st =
     (case m of
        Process data \<Rightarrow> process rnd data st
      | Clear \<Rightarrow> clear st
      | Other_msg \<Rightarrow> st)"

text \<open>
  What can happen in the worker: a message arrives, a timeout that is due fires (the event
  loop drops it and runs its callback \<open>sendBatch\<close>), time passes, or the \<open>onclose\<close>
  handler runs.
\<close>

datatype worker_event = Message worker_msg | Timeout nat | Advance nat | Closing

definition worker_step :: "(nat \<Rightarrow> string) \<Rightarrow> worker \<Rightarrow> worker_event \<Rightarrow> worker" where
  "worker_step rnd st e =
     (case e of
        Message m \<Rightarrow> onmessage rnd m st
      | Timeout h \<Rightarrow> (if due h st then sendBatch (clearTimeout h st) else st)
      | Advance d \<Rightarrow> st\<lparr>clock := clock st + d\<rparr>
      | Closing \<Rightarrow> sendBatch st)"

definition worker_run :: "(nat \<Rightarrow> string) \<Rightarrow> worker_event list \<Rightarrow> worker \<Rightarrow> worker" where
  "worker_run rnd es st = foldl (worker_step rnd) st es"

section \<open>Aggregation Buffer (LogcatViewer.jsx, lines 16, 21, 37-39 and 97-122)\<close>

definition LOG_UPDATE_INTERVAL :: nat where
  "LOG_UPDATE_INTERVAL = 300"

text \<open>
  \<open>logs\<close> is the React state (the view), \<open>logBuffer\<close> and \<open>logUpdateTimeoutRef\<close> are the
  refs' current values. A state update is applied when it is requested.
\<close>

record viewer = event_loop +
  logs :: "log_record list"
  logBuffer :: "log_record list"
  logUpdateTimeoutRef :: "nat option"

definition viewer_init :: viewer where
  "viewer_init =
     \<lparr>timers = [], nextTimer = 1, clock = 0,
      logs = [], logBuffer = [], logUpdateTimeoutRef = None\<rparr>"

text \<open>The \<open>type\<close> of a message from the worker, with its payload.\<close>

datatype viewer_msg = Logs "log_record list" | Other_type

text \<open>The callback of the timeout set at line 110.\<close>

definition update_logs :: "viewer \<Rightarrow> viewer" where
  "update_logs st =
     (let logsToAdd = logBuffer st;
          st1 = st\<lparr>logBuffer := []\<rparr>;
          st2 = st1\<lparr>logs := merge_logs (logs st1) logsToAdd\<rparr>
      in st2\<lparr>logUpdateTimeoutRef := None\<rparr>)"

text \<open>The handler of lines 97-122.\<close>

definition viewer_onmessage :: "viewer_msg \<Rightarrow> viewer \<Rightarrow> viewer" where
  "viewer_onmessage m st =
     (case m of
        Other_type \<Rightarrow> st
      | Logs parsedLogs \<Rightarrow>
          (if length parsedLogs > 0
           then (let st1 = st\<lparr>logBuffer := logBuffer st @ parsedLogs\<rparr>;
                     st2 = (case logUpdateTimeoutRef st1 of
                              None \<Rightarrow> st1
                            | Some h \<Rightarrow> (if truthy (Some h) then clearTimeout h st1 else st1));
                     (h', st3) = setTimeout LOG_UPDATE_INTERVAL st2
                 in st3\<lparr>logUpdateTimeoutRef := Some h'\<rparr>)
           else st))"

datatype viewer_event = Received viewer_msg | Fires nat | Passes nat

definition viewer_step :: "viewer \<Rightarrow> viewer_event \<Rightarrow> viewer" where
  "viewer_step st e =
     (case e of
        Received m \<Rightarrow> viewer_onmessage m st
      | Fires h \<Rightarrow> (if due h st then update_logs (clearTimeout h st) else st)
      | Passes d \<Rightarrow> st\<lparr>clock := clock st + d\<rparr>)"

definition viewer_run :: "viewer_event list \<Rightarrow> viewer \<Rightarrow> viewer" where
  "viewer_run es st = foldl viewer_step st es"

section \<open>Invariants of the two contexts\<close>

text \<open>
  Between two events of the worker: handles are positive; the pending batch is below
  \<open>BATCH_SIZE\<close>; when \<open>timeoutId\<close> is \<open>null\<close> no timeout is set and nothing is pending;
  otherwise \<open>timeoutId\<close> is the handle of the only timeout that is set, and records are
  pending.
\<close>

definition worker_inv :: "worker \<Rightarrow> bool" where
  "worker_inv st =
     (0 < nextTimer st \<and> length (parsedLogsBuffer st) < BATCH_SIZE \<and>
      (case timeoutId st of
         None \<Rightarrow> timers st = [] \<and> parsedLogsBuffer st = []
       | Some h \<Rightarrow> 0 < h \<and> h < nextTimer st \<and> map fst (timers st) = [h]
                   \<and> parsedLogsBuffer st \<noteq> []))"

text \<open>
  Between two events of the viewer: \<open>logUpdateTimeoutRef\<close> is \<open>null\<close> and no timeout is set,
  or it is the handle of the only timeout that is set.
\<close>

definition viewer_inv :: "viewer \<Rightarrow> bool" where
  "viewer_inv st =
     (0 < nextTimer st \<and>
      (case logUpdateTimeoutRef st of
         None \<Rightarrow> timers st = []
       | Some h \<Rightarrow> 0 < h \<and> h < nextTimer st \<and> map fst (timers st) = [h]))"

text \<open>A worker that has just started, but for its counters and its posted batches.\<close>

definition worker_fresh :: "worker \<Rightarrow> worker" where
  "worker_fresh st =
     worker_init\<lparr>nextTimer := nextTimer st, clock := clock st, calls := calls st\<rparr>"

text \<open>All the records of the batches that the viewer has received, in arrival order.\<close>

fun received :: "viewer_event list \<Rightarrow> log_record list" where
  "received [] = []"
| "received (Received (Logs b) # es) = b @ received es"
| "received (e # es) = received es"

section \<open>Inputs used in the examples\<close>

definition example_line :: string where
  "example_line = ''10-01 12:00:00.000 123 456 I MyTag: hello''"

definition example_record :: "string \<Rightarrow> log_record" where
  "example_record r =
     \<lparr>timestamp = ''10-01 12:00:00.000'', pid = ''123'', tid = ''456'', level = ''I'',
      tag = ''MyTag'', message = ''hello'',
      key = ''10-01 12:00:00.000-123-456-MyTag-'' @ r\<rparr>"

text \<open>A random source whose calls all return the same value, and one whose calls do not.\<close>

definition same_draw :: "nat \<Rightarrow> string" where
  "same_draw i = ''0.5''"

definition two_draws :: "nat \<Rightarrow> string" where
  "two_draws i = (if i = 0 then ''0.25'' else ''0.75'')"

section \<open>Properties of split and the reassembler\<close>

lemma split_acc_nonempty: "split_acc sep cur xs \<noteq> []"
  by (induction xs arbitrary: cur) auto

lemma split_acc_append:
  "split_acc sep cur (a @ b) = butlast (split_acc sep cur a) @ split_acc sep (last (split_acc sep cur a)) b"
  by (induction a arbitrary: cur) (auto simp: split_acc_nonempty)

lemma split_acc_no_sep: "sep \<notin> set xs \<Longrightarrow> split_acc sep cur xs = [cur @ xs]"
  by (induction xs arbitrary: cur) auto

lemma split_acc_last_no_sep:
  "sep \<notin> set cur \<Longrightarrow> sep \<notin> set (last (split_acc sep cur xs))"
  by (induction xs arbitrary: cur) (auto simp: split_acc_nonempty)

lemma split_acc_butlast_no_sep:
  "sep \<notin> set cur \<Longrightarrow> sep \<notin> set (concat (butlast (split_acc sep cur xs)))"
proof (induction xs arbitrary: cur)
  case Nil
  then show ?case by simp
next
  case (Cons x xs)
  show ?case
  proof (cases "x = sep")
    case True
    have "sep \<notin> set (concat (butlast (split_acc sep [] xs)))"
      by (rule Cons.IH) simp
    with True Cons.prems show ?thesis
      by (simp add: split_acc_nonempty)
  next
    case False
    with Cons.prems have "sep \<notin> set (cur @ [x])" by simp
    from Cons.IH [OF this] False show ?thesis by simp
  qed
qed

lemma split_acc_length:
  "length (split_acc sep cur xs) = Suc (count_list xs sep)"
  by (induction xs arbitrary: cur) auto

lemma split_acc_join:
  "concat (map (\<lambda>l. l @ [sep]) (butlast (split_acc sep cur xs))) @ last (split_acc sep cur xs)
     = cur @ xs"
  by (induction xs arbitrary: cur) (auto simp: split_acc_nonempty)

lemma split_acc_start:
  "sep \<notin> set cur \<Longrightarrow> split_acc sep [] (cur @ xs) = split_acc sep cur xs"
  using split_acc_append [of sep "[]" cur xs] by (simp add: split_acc_no_sep)

lemma reassemble_eq:
  "reassemble buf data =
     (butlast (split newline (buf @ data)), last (split newline (buf @ data)))"
  by (simp add: reassemble_def pop_def or_empty_def split_def split_acc_nonempty Let_def)

lemma feed_eq:
  "newline \<notin> set buf \<Longrightarrow>
   feed buf cs =
     (butlast (split_acc newline buf (concat cs)), last (split_acc newline buf (concat cs)))"
proof (induction cs arbitrary: buf)
  case Nil
  then show ?case by simp
next
  case (Cons c cs)
  let ?b = "last (split_acc newline buf c)"
  have nb: "newline \<notin> set ?b"
    using Cons.prems by (rule split_acc_last_no_sep)
  have r: "reassemble buf c = (butlast (split_acc newline buf c), ?b)"
    using Cons.prems by (simp add: reassemble_eq split_def split_acc_start)
  have s: "split_acc newline buf (c @ concat cs)
             = butlast (split_acc newline buf c) @ split_acc newline ?b (concat cs)"
    by (simp add: split_acc_append)
  show ?case
    by (simp add: r Cons.IH [OF nb] s butlast_append split_acc_nonempty)
qed

section \<open>Properties of the bounded view\<close>

lemma slice_last:
  "slice (- int MAX_LOGS) xs = drop (length xs - MAX_LOGS) xs"
proof -
  have "nat (max (int (length xs) + - 1000) 0) = length xs - 1000"
    by linarith
  then show ?thesis
    by (simp add: slice_def Let_def MAX_LOGS_def)
qed

lemma merge_logs_eq:
  "merge_logs prevLogs logsToAdd =
     drop (length (prevLogs @ logsToAdd) - MAX_LOGS) (prevLogs @ logsToAdd)"
  by (simp add: merge_logs_def Let_def slice_last)

lemma drop_last_twice:
  "drop (length (drop (length a - n) a @ c) - n) (drop (length a - n) a @ c)
     = drop (length (a @ c) - n) (a @ c)"
proof (cases "length a \<le> n")
  case True
  then show ?thesis by simp
next
  case False
  then have "length c + length a - n = length a + length c - n" by simp
  with False show ?thesis by simp
qed

lemma foldl_merge_logs:
  "length v \<le> MAX_LOGS \<Longrightarrow>
   foldl merge_logs v bs = drop (length (v @ concat bs) - MAX_LOGS) (v @ concat bs)"
proof (induction bs arbitrary: v)
  case Nil
  then show ?case by simp
next
  case (Cons b bs)
  have le: "length (merge_logs v b) \<le> MAX_LOGS"
    unfolding merge_logs_eq by simp
  have "foldl merge_logs v (b # bs) = foldl merge_logs (merge_logs v b) bs"
    by simp
  also have "\<dots> = drop (length (merge_logs v b @ concat bs) - MAX_LOGS) (merge_logs v b @ concat bs)"
    by (rule Cons.IH [OF le])
  also have "\<dots> = drop (length ((v @ b) @ concat bs) - MAX_LOGS) ((v @ b) @ concat bs)"
    unfolding merge_logs_eq by (rule drop_last_twice)
  finally show ?case by simp
qed

section \<open>Properties of the Line Reassembler over a sequence of chunks\<close>

text \<open>
  C3. Starting from an empty partial-line buf, the lines emitted over a sequence of
  chunks are those emitted for the concatenation fed as one chunk, however the chunks
  are cut; there are as many as there are newline characters in the concatenation; no
  emitted line holds a newline; and the emitted lines, each followed by a newline,
  followed by the text left in the buf, are the concatenation itself.
\<close>

theorem reassembler_emits_all_lines:
  "fst (feed [] cs) = fst (feed [] [concat cs])
   \<and> length (fst (feed [] cs)) = count_list (concat cs) newline
   \<and> newline \<notin> set (concat (fst (feed [] cs)))
   \<and> concat (map (\<lambda>l. l @ [newline]) (fst (feed [] cs))) @ snd (feed [] cs) = concat cs
   \<and> newline \<notin> set (snd (feed [] cs))"
proof -
  let ?S = "split_acc newline [] (concat cs)"
  have f: "feed [] cs = (butlast ?S, last ?S)"
    by (simp add: feed_eq)
  have g: "feed [] [concat cs] = (butlast ?S, last ?S)"
    using feed_eq [of "[]" "[concat cs]"] by simp
  have n: "length (butlast ?S) = count_list (concat cs) newline"
    by (simp add: split_acc_length)
  have b: "newline \<notin> set (concat (butlast ?S))"
    by (rule split_acc_butlast_no_sep) simp
  have l: "newline \<notin> set (last ?S)"
    by (rule split_acc_last_no_sep) simp
  have j: "concat (map (\<lambda>l. l @ [newline]) (butlast ?S)) @ last ?S = concat cs"
    using split_acc_join [of newline "[]" "concat cs"] by simp
  show ?thesis
    unfolding f g fst_conv snd_conv using n b l j by blast
qed

section \<open>The matcher finds a match exactly on the lines of the grammar\<close>

lemma generates_Nil: "generates [] s"
  by simp

lemma generates_Open [simp]: "generates (Open # r) s = generates r s"
  by simp

lemma generates_Close [simp]: "generates (Close # r) s = generates r s"
  by simp

lemma generates_One_Nil [simp]: "generates (One k # r) [] = False"
  by simp

lemma generates_One_Cons [simp]:
  "generates (One k # r) (x # xs) = (in_cls k x \<and> generates r xs)"
  by simp

lemma generates_Star_Nil [simp]: "generates (Star k # r) [] = generates r []"
  by (simp add: word_of_def)

lemma generates_Star_Cons:
  "generates (Star k # r) (x # xs) =
     ((in_cls k x \<and> generates (Star k # r) xs) \<or> generates r (x # xs))"
proof
  assume "generates (Star k # r) (x # xs)"
  then obtain u v where uv: "x # xs = u @ v" "word_of k u" "generates r v"
    by auto
  show "(in_cls k x \<and> generates (Star k # r) xs) \<or> generates r (x # xs)"
  proof (cases u)
    case Nil
    with uv show ?thesis by simp
  next
    case (Cons y u')
    with uv have "in_cls k x" "xs = u' @ v" "word_of k u'"
      by (simp_all add: word_of_def)
    with uv(3) show ?thesis by auto
  qed
next
  assume a: "(in_cls k x \<and> generates (Star k # r) xs) \<or> generates r (x # xs)"
  then show "generates (Star k # r) (x # xs)"
  proof
    assume "in_cls k x \<and> generates (Star k # r) xs"
    then obtain u v where "in_cls k x" "xs = u @ v" "word_of k u" "generates r v"
      by auto
    then have "x # xs = (x # u) @ v \<and> word_of k (x # u) \<and> generates r v"
      by (simp add: word_of_def)
    then show ?thesis by (simp del: append_Cons) blast
  next
    assume "generates r (x # xs)"
    then have "x # xs = [] @ (x # xs) \<and> word_of k [] \<and> generates r (x # xs)"
      by (simp add: word_of_def)
    then show ?thesis by (simp del: append_Nil) blast
  qed
qed

lemma generates_StarLazy: "generates (StarLazy k # r) s = generates (Star k # r) s"
  by simp

lemma generates_PlusLazy: "generates (PlusLazy k # r) s = generates (Plus k # r) s"
  by simp

lemma generates_Plus_Nil [simp]: "generates (Plus k # r) [] = False"
  by simp

lemma generates_Plus_Cons:
  "generates (Plus k # r) (x # xs) = (in_cls k x \<and> generates (Star k # r) xs)"
proof
  assume "generates (Plus k # r) (x # xs)"
  then obtain u v where uv: "x # xs = u @ v" "u \<noteq> []" "word_of k u" "generates r v"
    by auto
  then obtain y u' where "u = y # u'" by (cases u) auto
  with uv have "in_cls k x" "xs = u' @ v" "word_of k u'"
    by (simp_all add: word_of_def)
  with uv(4) show "in_cls k x \<and> generates (Star k # r) xs" by auto
next
  assume "in_cls k x \<and> generates (Star k # r) xs"
  then obtain u v where "in_cls k x" "xs = u @ v" "word_of k u" "generates r v"
    by auto
  then have "x # xs = (x # u) @ v \<and> x # u \<noteq> [] \<and> word_of k (x # u) \<and> generates r v"
    by (simp add: word_of_def)
  then show "generates (Plus k # r) (x # xs)" by (simp del: append_Cons) blast
qed

lemma generates_Rep_0: "generates (Rep 0 k # r) s = generates r s"
  by (simp add: word_of_def)

lemma generates_Rep_Nil: "generates (Rep n k # r) [] = (n = 0 \<and> generates r [])"
  by (auto simp: word_of_def)

lemma generates_Rep_Cons:
  "0 < n \<Longrightarrow>
   generates (Rep n k # r) (x # xs) = (in_cls k x \<and> generates (Rep (n - 1) k # r) xs)"
proof
  assume n: "0 < n" and "generates (Rep n k # r) (x # xs)"
  then obtain u v where uv: "x # xs = u @ v" "length u = n" "word_of k u" "generates r v"
    by auto
  with n obtain y u' where "u = y # u'" by (cases u) auto
  with uv have "in_cls k x" "xs = u' @ v" "word_of k u'" "length u' = n - 1"
    by (auto simp add: word_of_def)
  with uv(4) show "in_cls k x \<and> generates (Rep (n - 1) k # r) xs" by auto
next
  assume n: "0 < n" and "in_cls k x \<and> generates (Rep (n - 1) k # r) xs"
  then obtain u v where "in_cls k x" "xs = u @ v" "length u = n - 1" "word_of k u" "generates r v"
    by auto
  with n have "x # xs = (x # u) @ v \<and> length (x # u) = n \<and> word_of k (x # u) \<and> generates r v"
    by (simp add: word_of_def)
  then show "generates (Rep n k # r) (x # xs)" by (simp del: append_Cons list.size length_Cons) blast
qed

lemma rx_match_generates: "(rx_match re s cs = None) = (\<not> generates re s)"
proof (induction re s cs rule: rx_match.induct)
  case (7 n k r x xs cs)
  then show ?case
    by (cases "n = 0") (simp_all add: generates_Rep_0 generates_Rep_Cons del: generates.simps)
next
  case (13 k r x xs cs)
  then show ?case
    by (auto simp add: generates_Star_Cons simp del: generates.simps split: option.splits)
next
  case (15 k r x xs cs)
  then show ?case
    by (auto simp add: generates_StarLazy generates_Star_Cons simp del: generates.simps split: option.splits) 
qed (simp_all add: generates_Nil generates_Rep_0 generates_Rep_Nil generates_Plus_Cons generates_PlusLazy generates_StarLazy del: generates.simps)

lemma rx_search_generates:
  "(rx_search re s = None) = (\<not> (\<exists>pre rest. s = pre @ rest \<and> generates re rest))"
proof (induction s)
  case Nil
  then show ?case by (simp add: rx_match_generates)
next
  case (Cons x xs)
  have "(\<exists>pre rest. x # xs = pre @ rest \<and> generates re rest)
          = (generates re (x # xs) \<or> (\<exists>pre rest. xs = pre @ rest \<and> generates re rest))"
    by (auto simp: Cons_eq_append_conv)
  moreover have "(rx_search re (x # xs) = None)
          = (rx_match re (x # xs) ([], None) = None \<and> rx_search re xs = None)"
    by (simp split: option.splits)
  ultimately show ?case
    using Cons.IH by (simp only: rx_match_generates de_Morgan_disj)
qed

lemma grammar_line_search: "(rx_search logRegex line = None) = (\<not> grammar_line line)"
  by (simp only: grammar_line_def rx_search_generates)

section \<open>Properties of the Record Parser\<close>

lemma rx_match_captures_aux:
  "case rx_match re s cs of None \<Rightarrow> True
   | Some caps \<Rightarrow> length caps = length (fst cs) + length (filter (\<lambda>i. i = Close) re)"
  by (induction re s cs rule: rx_match.induct)
     (auto simp add: consume_def open_group_def close_group_def split: option.splits, blast)

lemma rx_match_captures:
  "rx_match re s cs = Some caps \<Longrightarrow>
   length caps = length (fst cs) + length (filter (\<lambda>i. i = Close) re)"
  using rx_match_captures_aux [where re = re and s = s and cs = cs] by simp

lemma rx_search_captures:
  "rx_search re s = Some caps \<Longrightarrow> length caps = length (filter (\<lambda>i. i = Close) re)"
proof (induction s)
  case Nil
  then show ?case using rx_match_captures [of re "[]" "([], None)" caps] by simp
next
  case (Cons x xs)
  then show ?case
    using rx_match_captures [of re "x # xs" "([], None)" caps]
    by (simp split: option.splits)
qed

lemma logRegex_captures:
  assumes "rx_search logRegex line = Some caps"
  obtains ts p t lv tg msg where "caps = [ts, p, t, lv, tg, msg]"
proof -
  have "length caps = 6"
    using rx_search_captures [OF assms] by (simp add: logRegex_def)
  then obtain ts p t lv tg msg where "caps = [ts, p, t, lv, tg, msg]"
    by (auto simp: length_Suc_conv eval_nat_numeral)
  then show ?thesis by (rule that)
qed

lemma parseLogLine_None: "rx_search logRegex line = None \<Longrightarrow> parseLogLine rnd n line = (None, n)"
  by (simp add: parseLogLine_def)

lemma parseLogLine_Some:
  assumes "rx_search logRegex line = Some caps"
  shows "parseLogLine rnd n line =
           (Some \<lparr>timestamp = caps ! 0, pid = caps ! 1, tid = caps ! 2, level = caps ! 3,
                  tag = caps ! 4, message = caps ! 5,
                  key = make_key (caps ! 0) (caps ! 1) (caps ! 2) (caps ! 4) (rnd n)\<rparr>,
            Suc n)"
proof -
  from assms obtain ts p t lv tg msg where "caps = [ts, p, t, lv, tg, msg]"
    by (rule logRegex_captures)
  with assms show ?thesis by (simp add: parseLogLine_def)
qed

lemma parseLogLine_grammar:
  "(fst (parseLogLine rnd n line) = None) = (\<not> grammar_line line)"
proof (cases "rx_search logRegex line")
  case None
  then show ?thesis
    using grammar_line_search [of line] by (simp add: parseLogLine_None)
next
  case (Some caps)
  then show ?thesis
    using grammar_line_search [of line] by (simp add: parseLogLine_Some)
qed

lemma parse_lines_append:
  "parse_lines rnd n (ls @ ls') =
     (fst (parse_lines rnd n ls) @ fst (parse_lines rnd (snd (parse_lines rnd n ls)) ls'),
      snd (parse_lines rnd (snd (parse_lines rnd n ls)) ls'))"
  by (induction ls arbitrary: n) (auto simp: Let_def split: prod.splits option.splits)

lemma make_key_inject:
  "(make_key ts p t tg r = make_key ts p t tg r') = (r = r')"
  by (simp add: make_key_def)

lemma last_dash_suffix:
  assumes "a @ CHR ''-'' # r = b @ CHR ''-'' # r'" "CHR ''-'' \<notin> set r" "CHR ''-'' \<notin> set r'"
  shows "r = r'"
proof -
  let ?P = "\<lambda>c. c \<noteq> CHR ''-''"
  have "rev r @ CHR ''-'' # rev a = rev r' @ CHR ''-'' # rev b"
    using arg_cong [OF assms(1), of rev] by simp
  then have "takeWhile ?P (rev r @ CHR ''-'' # rev a) = takeWhile ?P (rev r' @ CHR ''-'' # rev b)"
    by simp
  moreover have "takeWhile ?P (rev r @ CHR ''-'' # rev a) = rev r"
    using assms(2) by (auto simp add: takeWhile_tail)
  moreover have "takeWhile ?P (rev r' @ CHR ''-'' # rev b) = rev r'"
    using assms(3) by (auto simp add: takeWhile_tail)
  ultimately show ?thesis by simp
qed

lemma parse_example:
  "parseLogLine rnd n example_line = (Some (example_record (rnd n)), Suc n)"
  by (simp add: parseLogLine_def logRegex_def consume_def open_group_def close_group_def
        example_line_def example_record_def make_key_def)

lemma split_acc_terminated:
  "sep \<notin> set xs \<Longrightarrow> split_acc sep cur (xs @ [sep]) = [cur @ xs, []]"
  by (simp add: split_acc_append split_acc_no_sep)

lemma reassemble_one_line:
  "newline \<notin> set line \<Longrightarrow> reassemble [] (line @ [newline]) = ([line], [])"
  by (simp add: reassemble_eq split_def split_acc_terminated)

text \<open>
  C6. The line \<open>10-01 12:00:00.000 123 456 I MyTag: hello\<close> is parsed into the record with
  these six fields, whose key is made of the timestamp, pid, tid, tag and the random draw.
\<close>

theorem parse_example_line:
  "parseLogLine rnd n ''10-01 12:00:00.000 123 456 I MyTag: hello'' =
     (Some \<lparr>timestamp = ''10-01 12:00:00.000'', pid = ''123'', tid = ''456'', level = ''I'',
            tag = ''MyTag'', message = ''hello'',
            key = make_key ''10-01 12:00:00.000'' ''123'' ''456'' ''MyTag'' (rnd n)\<rparr>,
      Suc n)"
  by (simp add: parseLogLine_def logRegex_def consume_def open_group_def close_group_def)

text \<open>
  C10. The match is not anchored. With the text \<open>xx\<close> before the same line the parser
  returns the record of the matching part, not "unparsable"; and a line that goes on after
  a carriage return (which \<open>.\<close> does not match) is parsed too, its message ending there.
\<close>

theorem parse_not_anchored:
  "parseLogLine rnd n ''xx10-01 12:00:00.000 123 456 I MyTag: hello'' =
     (Some \<lparr>timestamp = ''10-01 12:00:00.000'', pid = ''123'', tid = ''456'', level = ''I'',
            tag = ''MyTag'', message = ''hello'',
            key = make_key ''10-01 12:00:00.000'' ''123'' ''456'' ''MyTag'' (rnd n)\<rparr>,
      Suc n)
   \<and> parseLogLine rnd n (''10-01 12:00:00.000 123 456 I MyTag: hello'' @ [CHR 0x0D] @ ''yy'') =
     (Some \<lparr>timestamp = ''10-01 12:00:00.000'', pid = ''123'', tid = ''456'', level = ''I'',
            tag = ''MyTag'', message = ''hello'',
            key = make_key ''10-01 12:00:00.000'' ''123'' ''456'' ''MyTag'' (rnd n)\<rparr>,
      Suc n)"
  by (simp add: parseLogLine_def logRegex_def consume_def open_group_def close_group_def)

text \<open>
  C7. A line that does not match the line grammar is unparsable: the parser returns no
  record (and makes no random draw; there is no error to raise), the records parsed from
  an array of lines are those parsed without that line, and a chunk that is just this line
  and its newline, arriving on an empty partial-line buffer, leaves the worker as it was:
  nothing is appended to the pending batch, nothing is posted and no timer is set.
\<close>

theorem unparsable_line_dropped:
  assumes "\<not> grammar_line line"
  shows "parseLogLine rnd n line = (None, n)
     \<and> parse_lines rnd n (ls @ line # ls') = parse_lines rnd n (ls @ ls')
     \<and> (newline \<notin> set line \<and> buffer st = [] \<longrightarrow> process rnd (line @ [newline]) st = st)"
proof -
  have p: "parseLogLine rnd m line = (None, m)" for m
    using assms grammar_line_search [of line] by (simp add: parseLogLine_None)
  have q: "parse_lines rnd m (line # ks) = parse_lines rnd m ks" for m ks
    by (simp add: p split: prod.splits)
  have "parse_lines rnd n (ls @ line # ls') = parse_lines rnd n (ls @ ls')"
    by (simp only: parse_lines_append [of rnd n ls] q)
  moreover have "process rnd (line @ [newline]) st = st"
    if "newline \<notin> set line" "buffer st = []"
    using that by (simp add: process_def reassemble_one_line p)
  ultimately show ?thesis
    using p by blast
qed

theorem unparsable_line_dropped_witness:
  "\<not> grammar_line ''garbage''
   \<and> parseLogLine same_draw 0 ''garbage'' = (None, 0)
   \<and> parse_lines same_draw 0 [example_line, ''garbage'', example_line]
       = parse_lines same_draw 0 [example_line, example_line]
   \<and> process same_draw (''garbage'' @ [newline]) worker_init = worker_init"
proof -
  have "rx_search logRegex ''garbage'' = None"
    by (simp add: logRegex_def)
  with grammar_line_search [of "''garbage''"] have g: "\<not> grammar_line ''garbage''"
    by blast
  have n: "newline \<notin> set ''garbage'' \<and> buffer worker_init = []"
    by (simp add: newline_def worker_init_def)
  show ?thesis
    using g n unparsable_line_dropped [OF g, of same_draw 0 "[example_line]" "[example_line]" worker_init]
    by simp
qed

text \<open>
  C5, as the code has it. A call on a matching line makes exactly one random draw and
  returns a record whose key is the timestamp, pid, tid, tag and that draw, joined by
  dashes; it reads and changes nothing else, so two calls on the same line return records
  that differ at most in the key. Two records that agree on timestamp, pid, tid and tag
  have distinct keys exactly when the two draws differ, and any two records have distinct
  keys when the two draws differ and neither contains a dash.
\<close>

theorem key_distinct_iff_draws_differ:
  assumes "parseLogLine rnd n1 l1 = (Some r1, m1)" and "parseLogLine rnd n2 l2 = (Some r2, m2)"
  shows "m1 = Suc n1
     \<and> key r1 = make_key (timestamp r1) (pid r1) (tid r1) (tag r1) (rnd n1)
     \<and> (l1 = l2 \<longrightarrow> r1\<lparr>key := []\<rparr> = r2\<lparr>key := []\<rparr>)
     \<and> (timestamp r1 = timestamp r2 \<and> pid r1 = pid r2 \<and> tid r1 = tid r2 \<and> tag r1 = tag r2
            \<longrightarrow> (key r1 = key r2) = (rnd n1 = rnd n2))
     \<and> (rnd n1 \<noteq> rnd n2 \<and> CHR ''-'' \<notin> set (rnd n1) \<and> CHR ''-'' \<notin> set (rnd n2)
            \<longrightarrow> key r1 \<noteq> key r2)"
proof -
  from assms(1) obtain c1 where c1: "rx_search logRegex l1 = Some c1"
    by (cases "rx_search logRegex l1") (simp_all add: parseLogLine_None)
  from assms(2) obtain c2 where c2: "rx_search logRegex l2 = Some c2"
    by (cases "rx_search logRegex l2") (simp_all add: parseLogLine_None)
  note e1 = assms(1) [unfolded parseLogLine_Some [OF c1]]
  note e2 = assms(2) [unfolded parseLogLine_Some [OF c2]]
  have k1: "key r1 = make_key (timestamp r1) (pid r1) (tid r1) (tag r1) (rnd n1)" and m: "m1 = Suc n1"
    using e1 by auto
  have k2: "key r2 = make_key (timestamp r2) (pid r2) (tid r2) (tag r2) (rnd n2)"
    using e2 by auto
  have same: "r1\<lparr>key := []\<rparr> = r2\<lparr>key := []\<rparr>" if "l1 = l2"
    using that c1 c2 e1 e2 by auto
  have agree: "(key r1 = key r2) = (rnd n1 = rnd n2)"
    if "timestamp r1 = timestamp r2 \<and> pid r1 = pid r2 \<and> tid r1 = tid r2 \<and> tag r1 = tag r2"
    using that by (simp add: k1 k2 make_key_inject)
  have dash: "key r1 \<noteq> key r2"
    if d: "rnd n1 \<noteq> rnd n2 \<and> CHR ''-'' \<notin> set (rnd n1) \<and> CHR ''-'' \<notin> set (rnd n2)"
  proof
    assume "key r1 = key r2"
    then have "(timestamp r1 @ ''-'' @ pid r1 @ ''-'' @ tid r1 @ ''-'' @ tag r1) @ CHR ''-'' # rnd n1
             = (timestamp r2 @ ''-'' @ pid r2 @ ''-'' @ tid r2 @ ''-'' @ tag r2) @ CHR ''-'' # rnd n2"
      by (simp add: k1 k2 make_key_def)
    from last_dash_suffix [OF this] d have "rnd n1 = rnd n2"
      by blast
    with d show False by simp
  qed
  show ?thesis
    using m k1 same agree dash by blast
qed

theorem key_distinct_iff_draws_differ_witness:
  "parseLogLine two_draws 0 example_line = (Some (example_record ''0.25''), 1)
   \<and> parseLogLine two_draws 1 example_line = (Some (example_record ''0.75''), 2)
   \<and> key (example_record ''0.25'') \<noteq> key (example_record ''0.75'')"
proof -
  have a: "parseLogLine two_draws 0 example_line = (Some (example_record ''0.25''), 1)"
    using parse_example [of two_draws 0] by (simp add: two_draws_def)
  have b: "parseLogLine two_draws 1 example_line = (Some (example_record ''0.75''), 2)"
    using parse_example [of two_draws 1] by (simp add: two_draws_def)
  have d: "two_draws 0 \<noteq> two_draws 1 \<and> CHR ''-'' \<notin> set (two_draws 0)
             \<and> CHR ''-'' \<notin> set (two_draws 1)"
    by (simp add: two_draws_def)
  from key_distinct_iff_draws_differ [OF a b] d
  have "key (example_record ''0.25'') \<noteq> key (example_record ''0.75'')"
    by blast
  with a b show ?thesis by blast
qed

text \<open>
  The claim C5 as stated fails when \<open>Math.random()\<close> returns the same value to two calls:
  both calls on the example line then return the same record, key included.
\<close>

theorem same_draw_same_key:
  "parseLogLine same_draw 0 example_line = (Some (example_record ''0.5''), 1)
   \<and> parseLogLine same_draw 1 example_line = (Some (example_record ''0.5''), 2)"
  using parse_example [of same_draw 0] parse_example [of same_draw 1]
  by (simp add: same_draw_def)

section \<open>Properties of the Batch Scheduler\<close>

lemma worker_inv_init: "worker_inv worker_init"
  by (simp add: worker_inv_def worker_init_def BATCH_SIZE_def)

lemma sendBatch_eq:
  assumes "case timeoutId st of None \<Rightarrow> timers st = []
           | Some h \<Rightarrow> 0 < h \<and> (timers st = [] \<or> map fst (timers st) = [h])"
  shows "sendBatch st =
           st\<lparr>timers := [], parsedLogsBuffer := [], timeoutId := None,
              posted := (if parsedLogsBuffer st = [] then posted st
                         else posted st @ [parsedLogsBuffer st])\<rparr>"
  using assms
  by (auto simp add: sendBatch_def clearTimeout_def truthy_def Let_def split: option.splits)

lemma sendBatch_inv:
  assumes "worker_inv st"
  shows "sendBatch st =
           st\<lparr>timers := [], parsedLogsBuffer := [], timeoutId := None,
              posted := (if parsedLogsBuffer st = [] then posted st
                         else posted st @ [parsedLogsBuffer st])\<rparr>"
  using assms by (intro sendBatch_eq) (auto simp: worker_inv_def split: option.splits)

lemma submit_eq:
  assumes "worker_inv st"
  shows "submit recs st =
     (if BATCH_SIZE \<le> length (parsedLogsBuffer st @ recs)
      then st\<lparr>timers := [], parsedLogsBuffer := [], timeoutId := None,
              posted := posted st @ [parsedLogsBuffer st @ recs]\<rparr>
      else if timeoutId st = None
      then st\<lparr>timers := [(nextTimer st, clock st + BATCH_INTERVAL)],
              nextTimer := Suc (nextTimer st),
              parsedLogsBuffer := parsedLogsBuffer st @ recs,
              timeoutId := Some (nextTimer st)\<rparr>
      else st\<lparr>parsedLogsBuffer := parsedLogsBuffer st @ recs\<rparr>)"
proof -
  let ?st1 = "st\<lparr>parsedLogsBuffer := parsedLogsBuffer st @ recs\<rparr>"
  have t: "case timeoutId ?st1 of None \<Rightarrow> timers ?st1 = []
           | Some h \<Rightarrow> 0 < h \<and> (timers ?st1 = [] \<or> map fst (timers ?st1) = [h])"
    using assms by (auto simp: worker_inv_def split: option.splits)
  show ?thesis
  proof (cases "BATCH_SIZE \<le> length (parsedLogsBuffer st @ recs)")
    case True
    then have "parsedLogsBuffer st @ recs \<noteq> []"
      by (auto simp: BATCH_SIZE_def)
    with True show ?thesis
      by (simp add: submit_def Let_def sendBatch_eq [OF t])
  next
    case False
    show ?thesis
    proof (cases "timeoutId st")
      case None
      with False assms show ?thesis
        by (simp add: submit_def Let_def truthy_def setTimeout_def worker_inv_def)
    next
      case (Some h)
      with False assms show ?thesis
        by (simp add: submit_def Let_def truthy_def worker_inv_def)
    qed
  qed
qed

lemma submit_inv:
  assumes "worker_inv st" "recs \<noteq> []"
  shows "worker_inv (submit recs st)"
  using assms
  by (auto simp add: submit_eq worker_inv_def BATCH_SIZE_def split: option.splits)

lemma process_cases:
  "process rnd data st =
     (let st2 = st\<lparr>buffer := snd (reassemble (buffer st) data),
                    calls := snd (parse_lines rnd (calls st) (fst (reassemble (buffer st) data)))\<rparr>;
          newlyParsed = fst (parse_lines rnd (calls st) (fst (reassemble (buffer st) data)))
      in if newlyParsed = [] then st2 else submit newlyParsed st2)"
  by (cases "fst (reassemble (buffer st) data) = []")
     (auto simp add: process_def Let_def split: prod.splits)

lemma process_inv:
  assumes "worker_inv st"
  shows "worker_inv (process rnd data st)"
proof -
  let ?st2 = "st\<lparr>buffer := snd (reassemble (buffer st) data),
                    calls := snd (parse_lines rnd (calls st) (fst (reassemble (buffer st) data)))\<rparr>"
  have i: "worker_inv ?st2"
    using assms by (simp add: worker_inv_def split: option.splits)
  show ?thesis
    unfolding process_cases Let_def using i submit_inv [OF i] by simp
qed

lemma clear_eq:
  assumes "worker_inv st"
  shows "clear st = st\<lparr>timers := [], buffer := [], parsedLogsBuffer := [], timeoutId := None\<rparr>"
  using assms
  by (auto simp add: clear_def clearTimeout_def truthy_def Let_def worker_inv_def split: option.splits)

lemma clear_inv: "worker_inv st \<Longrightarrow> worker_inv (clear st)"
  by (simp add: clear_eq) (simp add: worker_inv_def BATCH_SIZE_def)

lemma timeout_eq:
  assumes "worker_inv st" "due h st"
  shows "sendBatch (clearTimeout h st) =
           st\<lparr>timers := [], parsedLogsBuffer := [], timeoutId := None,
              posted := posted st @ [parsedLogsBuffer st]\<rparr>"
proof -
  from assms(2) have ne: "timers st \<noteq> []"
    by (auto simp: due_def)
  with assms(1) obtain h' where h': "timeoutId st = Some h'" "0 < h'" "map fst (timers st) = [h']"
    "parsedLogsBuffer st \<noteq> []"
    by (cases "timeoutId st") (auto simp: worker_inv_def)
  then obtain d where d: "timers st = [(h', d)]"
    by (cases "timers st") auto
  with assms(2) have "h = h'"
    by (auto simp: due_def split: if_splits)
  with d have c: "timers (clearTimeout h st) = []"
    by (simp add: clearTimeout_def)
  have "sendBatch (clearTimeout h st) =
          (clearTimeout h st)\<lparr>timers := [], parsedLogsBuffer := [], timeoutId := None,
             posted := (if parsedLogsBuffer (clearTimeout h st) = [] then posted (clearTimeout h st)
                        else posted (clearTimeout h st) @ [parsedLogsBuffer (clearTimeout h st)])\<rparr>"
  proof (rule sendBatch_eq)
    have "timeoutId (clearTimeout h st) = Some h'"
      by (simp add: clearTimeout_def h')
    with c h'(2) show "case timeoutId (clearTimeout h st) of
        None \<Rightarrow> timers (clearTimeout h st) = []
      | Some ha \<Rightarrow> 0 < ha \<and> (timers (clearTimeout h st) = []
                     \<or> map fst (timers (clearTimeout h st)) = [ha])"
      by simp
  qed
  with h' show ?thesis
    by (simp add: clearTimeout_def)
qed

lemma worker_step_inv: "worker_inv st \<Longrightarrow> worker_inv (worker_step rnd st e)"
proof (cases e)
  case (Message m)
  assume "worker_inv st"
  with Message show ?thesis
    by (cases m) (simp_all add: worker_step_def onmessage_def process_inv clear_inv)
next
  case (Timeout h)
  assume i: "worker_inv st"
  show ?thesis
  proof (cases "due h st")
    case True
    with i Timeout show ?thesis
      by (simp add: worker_step_def timeout_eq) (simp add: worker_inv_def BATCH_SIZE_def)
  next
    case False
    with i Timeout show ?thesis by (simp add: worker_step_def)
  qed
next
  case (Advance d)
  assume "worker_inv st"
  with Advance show ?thesis
    by (simp add: worker_step_def worker_inv_def split: option.splits)
next
  case Closing
  assume "worker_inv st"
  with Closing show ?thesis
    by (simp add: worker_step_def sendBatch_inv) (simp add: worker_inv_def BATCH_SIZE_def)
qed

lemma worker_run_inv: "worker_inv st \<Longrightarrow> worker_inv (worker_run rnd es st)"
  unfolding worker_run_def
  by (induction es arbitrary: st) (simp_all add: worker_step_inv)

lemma worker_reachable_inv: "worker_inv (worker_run rnd es worker_init)"
  by (rule worker_run_inv) (rule worker_inv_init)


lemma worker_timers_le_one: "worker_inv st \<Longrightarrow> length (timers st) \<le> 1"
proof -
  assume "worker_inv st"
  then have "length (map fst (timers st)) \<le> 1"
    by (cases "timeoutId st") (simp_all add: worker_inv_def)
  then show ?thesis by simp
qed

lemma example_line_no_newline: "newline \<notin> set example_line"
  by (simp add: example_line_def newline_def)

lemma process_one_line:
  "process rnd (example_line @ [newline]) worker_init =
     worker_init\<lparr>timers := [(1, 150)], nextTimer := 2,
        parsedLogsBuffer := [example_record (rnd 0)], timeoutId := Some 1, calls := 1\<rparr>"
proof -
  have b: "buffer worker_init = []" "calls worker_init = 0"
    by (simp_all add: worker_init_def)
  have p: "parse_lines rnd 0 [example_line] = ([example_record (rnd 0)], 1)"
    by (simp add: parse_example)
  show ?thesis
    unfolding process_cases b reassemble_one_line [OF example_line_no_newline] fst_conv snd_conv p Let_def
    by (simp add: submit_def Let_def worker_init_def BATCH_SIZE_def BATCH_INTERVAL_def
          truthy_def setTimeout_def)
qed

text \<open>
  C4. In every state \<open>st\<close> that the worker can be in between two events: the handler of a
  \<open>process\<close> message submits the newly parsed records when there are any. If with them the
  pending buffer has \<open>BATCH_SIZE\<close> records or more, the whole buffer is posted at once and
  no timer stays set. If it stays below and no timer is set, one timer is set, due
  \<open>BATCH_INTERVAL\<close> from now. If it stays below and a timer is set, the records are only
  appended. At most one timer is set, before and after.
\<close>

theorem submit_schedules_one_timer:
  assumes "st = worker_run rnd es worker_init"
  shows "(BATCH_SIZE \<le> length (parsedLogsBuffer st @ recs) \<longrightarrow>
            submit recs st =
              st\<lparr>timers := [], parsedLogsBuffer := [], timeoutId := None,
                 posted := posted st @ [parsedLogsBuffer st @ recs]\<rparr>)
     \<and> (length (parsedLogsBuffer st @ recs) < BATCH_SIZE \<and> timeoutId st = None \<longrightarrow>
            submit recs st =
              st\<lparr>timers := [(nextTimer st, clock st + BATCH_INTERVAL)],
                 nextTimer := Suc (nextTimer st),
                 parsedLogsBuffer := parsedLogsBuffer st @ recs,
                 timeoutId := Some (nextTimer st)\<rparr>)
     \<and> (length (parsedLogsBuffer st @ recs) < BATCH_SIZE \<and> timeoutId st \<noteq> None \<longrightarrow>
            submit recs st = st\<lparr>parsedLogsBuffer := parsedLogsBuffer st @ recs\<rparr>)
     \<and> length (timers st) \<le> 1
     \<and> length (timers (submit recs st)) \<le> 1
     \<and> process rnd data st =
           (let st2 = st\<lparr>buffer := snd (reassemble (buffer st) data),
                          calls := snd (parse_lines rnd (calls st) (fst (reassemble (buffer st) data)))\<rparr>;
                newlyParsed = fst (parse_lines rnd (calls st) (fst (reassemble (buffer st) data)))
            in if newlyParsed = [] then st2 else submit newlyParsed st2)"
proof -
  have i: "worker_inv st"
    unfolding assms by (rule worker_reachable_inv)
  have "length (timers (submit recs st)) \<le> 1"
    using worker_timers_le_one [OF i] by (simp add: submit_eq [OF i])
  with worker_timers_le_one [OF i] process_cases [of rnd data st] show ?thesis
    by (simp add: submit_eq [OF i])
qed

theorem submit_schedules_one_timer_witness:
  "timers (submit [example_record ''0.5''] worker_init) = [(1, 150)]
   \<and> timers (worker_run same_draw [Message (Process (example_line @ [newline]))] worker_init)
       = [(1, 150)]
   \<and> timers (submit [example_record ''0.5'']
         (worker_run same_draw [Message (Process (example_line @ [newline]))] worker_init))
       = [(1, 150)]
   \<and> submit (replicate 200 (example_record ''0.5'')) worker_init
       = worker_init\<lparr>posted := [replicate 200 (example_record ''0.5'')]\<rparr>"
proof -
  let ?r = "example_record ''0.5''"
  let ?st = "worker_run same_draw [Message (Process (example_line @ [newline]))] worker_init"
  have e0: "worker_init = worker_run same_draw [] worker_init"
    by (simp add: worker_run_def)
  have a: "length (parsedLogsBuffer worker_init @ [?r]) < BATCH_SIZE \<and> timeoutId worker_init = None"
    by (simp add: worker_init_def BATCH_SIZE_def)
  have c: "BATCH_SIZE \<le> length (parsedLogsBuffer worker_init @ replicate 200 ?r)"
    by (simp add: worker_init_def BATCH_SIZE_def)
  have s: "?st = worker_init\<lparr>timers := [(1, 150)], nextTimer := 2,
        parsedLogsBuffer := [example_record (same_draw 0)], timeoutId := Some 1, calls := 1\<rparr>"
    by (simp add: worker_run_def worker_step_def onmessage_def process_one_line)
  have b: "length (parsedLogsBuffer ?st @ [?r]) < BATCH_SIZE \<and> timeoutId ?st \<noteq> None"
    by (simp add: s BATCH_SIZE_def)
  from submit_schedules_one_timer [OF e0, of "[?r]"] a
  have 1: "timers (submit [?r] worker_init) = [(1, 150)]"
    by (simp add: worker_init_def BATCH_INTERVAL_def)
  from submit_schedules_one_timer [OF refl, of same_draw "[Message (Process (example_line @ [newline]))]" "[?r]"] b
  have 2: "timers (submit [?r] ?st) = [(1, 150)]"
    by (simp add: s)
  from submit_schedules_one_timer [OF e0, of "replicate 200 ?r"] c
  have 3: "submit (replicate 200 ?r) worker_init = worker_init\<lparr>posted := [replicate 200 ?r]\<rparr>"
    by (simp add: worker_init_def)
  from 1 2 3 s show ?thesis by simp
qed

lemma sendBatch_posted:
  "sendBatch (st\<lparr>posted := p @ posted st\<rparr>) = (sendBatch st)\<lparr>posted := p @ posted (sendBatch st)\<rparr>"
  by (simp add: sendBatch_def Let_def clearTimeout_def split: option.splits)

lemma submit_posted:
  "submit recs (st\<lparr>posted := p @ posted st\<rparr>) = (submit recs st)\<lparr>posted := p @ posted (submit recs st)\<rparr>"
  by (cases st)
     (simp add: submit_def sendBatch_def Let_def setTimeout_def clearTimeout_def split: option.splits)

lemma process_posted:
  "process rnd data (st\<lparr>posted := p @ posted st\<rparr>)
     = (process rnd data st)\<lparr>posted := p @ posted (process rnd data st)\<rparr>"
  by (cases st)
     (simp add: process_cases submit_def sendBatch_def Let_def setTimeout_def clearTimeout_def
        split: option.splits)

lemma clear_posted:
  "clear (st\<lparr>posted := p @ posted st\<rparr>) = (clear st)\<lparr>posted := p @ posted (clear st)\<rparr>"
  by (simp add: clear_def Let_def clearTimeout_def split: option.splits)

lemma worker_step_posted:
  "worker_step rnd (st\<lparr>posted := p @ posted st\<rparr>) e
     = (worker_step rnd st e)\<lparr>posted := p @ posted (worker_step rnd st e)\<rparr>"
proof (cases e)
  case (Message m)
  then show ?thesis
    by (cases m) (simp_all add: worker_step_def onmessage_def process_posted clear_posted)
next
  case (Timeout h)
  then show ?thesis
    by (cases st)
       (simp add: worker_step_def due_def clearTimeout_def sendBatch_def Let_def split: option.splits)
next
  case (Advance d)
  then show ?thesis by (simp add: worker_step_def)
next
  case Closing
  then show ?thesis by (simp add: worker_step_def sendBatch_posted)
qed

lemma worker_run_posted:
  "worker_run rnd es (st\<lparr>posted := p @ posted st\<rparr>)
     = (worker_run rnd es st)\<lparr>posted := p @ posted (worker_run rnd es st)\<rparr>"
  unfolding worker_run_def
  by (induction es arbitrary: st) (simp_all add: worker_step_posted)

lemma clear_fresh:
  assumes "worker_inv st"
  shows "clear st = (worker_fresh st)\<lparr>posted := posted st @ posted (worker_fresh st)\<rparr>"
  by (simp add: clear_eq [OF assms] worker_fresh_def worker_init_def)


text \<open>
  C8. In every state \<open>st\<close> that the worker can be in between two events, a \<open>clear\<close>
  message empties the partial-line buffer and the pending batch, leaves no timer set and
  \<open>timeoutId\<close> \<open>null\<close>, and posts nothing. What was buffered is gone for good: whatever
  happens afterwards, the batches posted after the clear are those that a worker just
  started (with the same clock and counters) would post.
\<close>

theorem clear_resets_worker:
  assumes "st = worker_run rnd es worker_init"
  shows "buffer (onmessage rnd Clear st) = []
     \<and> parsedLogsBuffer (onmessage rnd Clear st) = []
     \<and> timeoutId (onmessage rnd Clear st) = None
     \<and> timers (onmessage rnd Clear st) = []
     \<and> posted (onmessage rnd Clear st) = posted st
     \<and> onmessage rnd Clear st = (worker_fresh st)\<lparr>posted := posted st\<rparr>
     \<and> posted (worker_run rnd es' (onmessage rnd Clear st))
         = posted st @ posted (worker_run rnd es' (worker_fresh st))"
proof -
  have i: "worker_inv st"
    unfolding assms by (rule worker_reachable_inv)
  have c: "onmessage rnd Clear st = clear st"
    by (simp add: onmessage_def)
  have f: "posted (worker_fresh st) = []"
    by (simp add: worker_fresh_def worker_init_def)
  have r: "posted (worker_run rnd es' (clear st))
          = posted st @ posted (worker_run rnd es' (worker_fresh st))"
    unfolding clear_fresh [OF i] worker_run_posted by simp
  have e: "clear st = (worker_fresh st)\<lparr>posted := posted st\<rparr>"
    using clear_fresh [OF i] f by simp
  have d: "buffer (clear st) = []" "parsedLogsBuffer (clear st) = []" "timeoutId (clear st) = None"
    "timers (clear st) = []" "posted (clear st) = posted st"
    by (simp_all add: clear_eq [OF i])
  show ?thesis
    unfolding c using d e r by blast
qed

theorem clear_resets_worker_witness:
  "onmessage same_draw Clear
     (worker_run same_draw [Message (Process (example_line @ [newline]))] worker_init)
     = worker_init\<lparr>nextTimer := 2, calls := 1\<rparr>
   \<and> posted (worker_run same_draw [Advance 150, Timeout 1, Closing]
        (onmessage same_draw Clear
          (worker_run same_draw [Message (Process (example_line @ [newline]))] worker_init)))
     = []"
proof -
  let ?st = "worker_run same_draw [Message (Process (example_line @ [newline]))] worker_init"
  have s: "?st = worker_init\<lparr>timers := [(1, 150)], nextTimer := 2,
        parsedLogsBuffer := [example_record (same_draw 0)], timeoutId := Some 1, calls := 1\<rparr>"
    by (simp add: worker_run_def worker_step_def onmessage_def process_one_line)
  have f: "worker_fresh ?st = worker_init\<lparr>nextTimer := 2, calls := 1\<rparr>"
    unfolding worker_fresh_def s by (simp add: worker_init_def)
  have r: "posted (worker_run same_draw [Advance 150, Timeout 1, Closing] (worker_fresh ?st)) = []"
    unfolding f
    by (simp add: worker_run_def worker_step_def worker_init_def due_def sendBatch_def Let_def)
  have p: "posted ?st = []"
    unfolding s by (simp add: worker_init_def)
  have z: "(worker_init\<lparr>nextTimer := 2, calls := 1\<rparr>)\<lparr>posted := []\<rparr>
             = worker_init\<lparr>nextTimer := 2, calls := 1\<rparr>"
    by (simp add: worker_init_def)
  note t = clear_resets_worker [OF refl, of same_draw
             "[Message (Process (example_line @ [newline]))]" "[Advance 150, Timeout 1, Closing]"]
  from t have e: "onmessage same_draw Clear ?st = (worker_fresh ?st)\<lparr>posted := posted ?st\<rparr>"
    by blast
  from t have q: "posted (worker_run same_draw [Advance 150, Timeout 1, Closing]
                     (onmessage same_draw Clear ?st))
                  = posted ?st @ posted (worker_run same_draw [Advance 150, Timeout 1, Closing]
                                           (worker_fresh ?st))"
    by blast
  have A: "onmessage same_draw Clear ?st = worker_init\<lparr>nextTimer := 2, calls := 1\<rparr>"
    using e unfolding p f z .
  have B: "posted (worker_run same_draw [Advance 150, Timeout 1, Closing]
              (onmessage same_draw Clear ?st)) = []"
    using q unfolding r p by simp
  from A B show ?thesis by (rule conjI)
qed

lemma split_acc_lines:
  "sep \<notin> set l \<Longrightarrow>
   split_acc sep [] (concat (replicate k (l @ [sep]))) = replicate k l @ [[]]"
proof (induction k)
  case 0
  then show ?case by simp
next
  case (Suc k)
  have "split_acc sep [] ((l @ [sep]) @ concat (replicate k (l @ [sep])))
          = butlast (split_acc sep [] (l @ [sep]))
            @ split_acc sep (last (split_acc sep [] (l @ [sep]))) (concat (replicate k (l @ [sep])))"
    by (rule split_acc_append)
  with Suc show ?case
    by (simp add: split_acc_terminated)
qed

lemma reassemble_lines:
  "newline \<notin> set l \<Longrightarrow>
   reassemble [] (concat (replicate k (l @ [newline]))) = (replicate k l, [])"
  by (simp add: reassemble_eq split_def split_acc_lines)

lemma parse_lines_example:
  "parse_lines rnd n (replicate k example_line)
     = (map (\<lambda>i. example_record (rnd i)) [n..<n + k], n + k)"
proof (induction k arbitrary: n)
  case 0
  then show ?case by simp
next
  case (Suc k)
  have "[n..<n + Suc k] = n # [Suc n..<Suc n + k]"
    by (simp add: upt_conv_Cons)
  then show ?case
    by (simp add: parse_example Suc.IH [of "Suc n"] del: upt_Suc)
qed

lemma process_posts_whole_buffer:
  assumes "fst (parse_lines rnd (calls st) (fst (reassemble (buffer st) data))) \<noteq> []"
    and "BATCH_SIZE \<le> length (parsedLogsBuffer st
           @ fst (parse_lines rnd (calls st) (fst (reassemble (buffer st) data))))"
  shows "posted (process rnd data st) =
           posted st @ [parsedLogsBuffer st
             @ fst (parse_lines rnd (calls st) (fst (reassemble (buffer st) data)))]"
  using assms
  by (cases st)
     (simp add: process_cases submit_def sendBatch_def Let_def clearTimeout_def
        split: option.splits)

text \<open>
  C9. A batch can hold more than \<open>BATCH_SIZE\<close> records. Whenever the records newly parsed
  from one chunk bring the pending buffer to \<open>BATCH_SIZE\<close> or more, the whole buffer is
  posted as one batch, whatever its length; and for every \<open>k\<close> from \<open>BATCH_SIZE\<close> on, a
  chunk of \<open>k\<close> matching lines sent to a worker that has just started is posted as one
  batch of \<open>k\<close> records.
\<close>

theorem batch_size_unbounded:
  "(fst (parse_lines rnd (calls st) (fst (reassemble (buffer st) data))) \<noteq> []
      \<and> BATCH_SIZE \<le> length (parsedLogsBuffer st
             @ fst (parse_lines rnd (calls st) (fst (reassemble (buffer st) data))))
    \<longrightarrow> posted (process rnd data st) =
          posted st @ [parsedLogsBuffer st
            @ fst (parse_lines rnd (calls st) (fst (reassemble (buffer st) data)))])
   \<and> (BATCH_SIZE \<le> k
    \<longrightarrow> posted (process rnd (concat (replicate k (example_line @ [newline]))) worker_init)
          = [map (\<lambda>i. example_record (rnd i)) [0..<k]]
        \<and> length (map (\<lambda>i. example_record (rnd i)) [0..<k]) = k)"
proof -
  have "posted (process rnd (concat (replicate k (example_line @ [newline]))) worker_init)
          = [map (\<lambda>i. example_record (rnd i)) [0..<k]]"
    if k: "BATCH_SIZE \<le> k"
  proof -
    let ?d = "concat (replicate k (example_line @ [newline]))"
    have b: "buffer worker_init = []" "calls worker_init = 0" "parsedLogsBuffer worker_init = []"
      "posted worker_init = []"
      by (simp_all add: worker_init_def)
    have n: "fst (parse_lines rnd (calls worker_init) (fst (reassemble (buffer worker_init) ?d)))
               = map (\<lambda>i. example_record (rnd i)) [0..<k]"
      by (simp add: b reassemble_lines [OF example_line_no_newline] parse_lines_example)
    have "posted (process rnd ?d worker_init) =
            posted worker_init @ [parsedLogsBuffer worker_init
              @ fst (parse_lines rnd (calls worker_init) (fst (reassemble (buffer worker_init) ?d)))]"
    proof (rule process_posts_whole_buffer)
      show "fst (parse_lines rnd (calls worker_init) (fst (reassemble (buffer worker_init) ?d))) \<noteq> []"
        unfolding n using k by (simp add: BATCH_SIZE_def)
      show "BATCH_SIZE \<le> length (parsedLogsBuffer worker_init
              @ fst (parse_lines rnd (calls worker_init) (fst (reassemble (buffer worker_init) ?d))))"
        unfolding n using k by (simp add: b)
    qed
    then show ?thesis
      unfolding n by (simp add: b)
  qed
  then show ?thesis
    using process_posts_whole_buffer [of rnd st data] by simp
qed

theorem batch_size_unbounded_witness:
  "BATCH_SIZE \<le> 1000
   \<and> posted (process same_draw (concat (replicate 1000 (example_line @ [newline]))) worker_init)
       = [map (\<lambda>i. example_record (same_draw i)) [0..<1000]]
   \<and> length (map (\<lambda>i. example_record (same_draw i)) [0..<1000]) = 1000"
proof -
  have k: "BATCH_SIZE \<le> 1000"
    by (simp add: BATCH_SIZE_def)
  let ?d = "concat (replicate 1000 (example_line @ [newline]))"
  have n: "fst (parse_lines same_draw (calls worker_init) (fst (reassemble (buffer worker_init) ?d)))
             = map (\<lambda>i. example_record (same_draw i)) [0..<1000]"
    by (simp add: worker_init_def reassemble_lines [OF example_line_no_newline] parse_lines_example)
  have h: "fst (parse_lines same_draw (calls worker_init) (fst (reassemble (buffer worker_init) ?d))) \<noteq> []
      \<and> BATCH_SIZE \<le> length (parsedLogsBuffer worker_init
             @ fst (parse_lines same_draw (calls worker_init) (fst (reassemble (buffer worker_init) ?d))))"
    unfolding n by (simp add: BATCH_SIZE_def worker_init_def)
  from batch_size_unbounded [of same_draw worker_init ?d 1000] k h
  show ?thesis
    unfolding n by (simp add: worker_init_def del: upt_Suc map_map)
qed

section \<open>Properties of the coalescing timer of the Aggregation Buffer\<close>

lemma viewer_inv_init: "viewer_inv viewer_init"
  by (simp add: viewer_inv_def viewer_init_def)

lemma viewer_onmessage_eq:
  assumes "viewer_inv st" "parsedLogs \<noteq> []"
  shows "viewer_onmessage (Logs parsedLogs) st =
           st\<lparr>timers := [(nextTimer st, clock st + LOG_UPDATE_INTERVAL)],
              nextTimer := Suc (nextTimer st),
              logBuffer := logBuffer st @ parsedLogs,
              logUpdateTimeoutRef := Some (nextTimer st)\<rparr>"
proof (cases "logUpdateTimeoutRef st")
  case None
  with assms show ?thesis
    by (simp add: viewer_onmessage_def Let_def setTimeout_def viewer_inv_def)
next
  case (Some h)
  with assms(1) obtain d where "timers st = [(h, d)]" "0 < h"
    by (cases "timers st") (auto simp: viewer_inv_def)
  with Some assms(2) show ?thesis
    by (simp add: viewer_onmessage_def Let_def setTimeout_def clearTimeout_def truthy_def)
qed

lemma viewer_onmessage_inv: "viewer_inv st \<Longrightarrow> viewer_inv (viewer_onmessage m st)"
proof (cases m)
  case (Logs parsedLogs)
  assume i: "viewer_inv st"
  show ?thesis
  proof (cases "parsedLogs = []")
    case True
    with i Logs show ?thesis by (simp add: viewer_onmessage_def)
  next
    case False
    with i Logs show ?thesis
      by (simp add: viewer_onmessage_eq) (simp add: viewer_inv_def)
  qed
next
  case Other_type
  assume "viewer_inv st"
  with Other_type show ?thesis by (simp add: viewer_onmessage_def)
qed

lemma viewer_fires_inv:
  assumes "viewer_inv st" "due h st"
  shows "viewer_inv (update_logs (clearTimeout h st))"
proof -
  from assms(2) have "timers st \<noteq> []"
    by (auto simp: due_def)
  with assms(1) obtain h' where h': "logUpdateTimeoutRef st = Some h'" "map fst (timers st) = [h']"
    by (cases "logUpdateTimeoutRef st") (auto simp: viewer_inv_def)
  then obtain d where d: "timers st = [(h', d)]"
    by (cases "timers st") auto
  with assms(2) have "h = h'"
    by (auto simp: due_def split: if_splits)
  with d assms(1) show ?thesis
    by (simp add: update_logs_def clearTimeout_def Let_def viewer_inv_def)
qed

lemma viewer_step_inv: "viewer_inv st \<Longrightarrow> viewer_inv (viewer_step st e)"
proof (cases e)
  case (Received m)
  assume "viewer_inv st"
  with Received show ?thesis by (simp add: viewer_step_def viewer_onmessage_inv)
next
  case (Fires h)
  assume "viewer_inv st"
  with Fires show ?thesis by (simp add: viewer_step_def viewer_fires_inv)
next
  case (Passes d)
  assume "viewer_inv st"
  with Passes show ?thesis
    by (simp add: viewer_step_def viewer_inv_def split: option.splits)
qed

lemma viewer_run_inv: "viewer_inv st \<Longrightarrow> viewer_inv (viewer_run es st)"
  unfolding viewer_run_def
  by (induction es arbitrary: st) (simp_all add: viewer_step_inv)

lemma viewer_reachable_inv: "viewer_inv (viewer_run es viewer_init)"
  by (rule viewer_run_inv) (rule viewer_inv_init)

lemma viewer_first_batch:
  "viewer_run [Received (Logs [r]), Passes 100] viewer_init =
     viewer_init\<lparr>timers := [(1, 300)], nextTimer := 2, clock := 100, logBuffer := [r],
       logUpdateTimeoutRef := Some 1\<rparr>"
  by (simp add: viewer_run_def viewer_step_def viewer_onmessage_def Let_def setTimeout_def
        viewer_init_def LOG_UPDATE_INTERVAL_def)

text \<open>
  C1, as the code has it. In every state \<open>st\<close> that the viewer can be in between two
  events, a non-empty batch from the worker is appended to the staging buffer, the timer
  that is set, if there is one, is cleared, and a new timer is set, due
  \<open>LOG_UPDATE_INTERVAL\<close> after this batch: it is then the only timer, under a handle that
  no earlier timer had. The view is not touched. The window is a sliding one: the merge
  comes \<open>LOG_UPDATE_INTERVAL\<close> after the last batch of a burst.
\<close>

theorem onBatch_restarts_timer:
  assumes "st = viewer_run es viewer_init" and "parsedLogs \<noteq> []"
  shows "viewer_onmessage (Logs parsedLogs) st =
           st\<lparr>timers := [(nextTimer st, clock st + LOG_UPDATE_INTERVAL)],
              nextTimer := Suc (nextTimer st),
              logBuffer := logBuffer st @ parsedLogs,
              logUpdateTimeoutRef := Some (nextTimer st)\<rparr>
     \<and> nextTimer st \<notin> set (map fst (timers st))
     \<and> logs (viewer_onmessage (Logs parsedLogs) st) = logs st"
proof -
  have i: "viewer_inv st"
    unfolding assms(1) by (rule viewer_reachable_inv)
  have "nextTimer st \<notin> set (map fst (timers st))"
    using i by (cases "logUpdateTimeoutRef st") (auto simp: viewer_inv_def)
  then show ?thesis
    by (simp add: viewer_onmessage_eq [OF i assms(2)])
qed

theorem onBatch_restarts_timer_witness:
  "timers (viewer_run [Received (Logs [example_record ''0.5'']), Passes 100] viewer_init)
     = [(1, 300)]
   \<and> timers (viewer_onmessage (Logs [example_record ''0.7''])
        (viewer_run [Received (Logs [example_record ''0.5'']), Passes 100] viewer_init))
     = [(2, 400)]"
proof -
  let ?st = "viewer_run [Received (Logs [example_record ''0.5'']), Passes 100] viewer_init"
  have n: "[example_record ''0.7''] \<noteq> []"
    by simp
  have s: "timers ?st = [(1, 300)]" "nextTimer ?st = 2" "clock ?st = 100"
    unfolding viewer_first_batch by (simp_all add: viewer_init_def)
  from onBatch_restarts_timer [OF refl n, of "[Received (Logs [example_record ''0.5'']), Passes 100]"]
  have "timers (viewer_onmessage (Logs [example_record ''0.7'']) ?st)
          = [(nextTimer ?st, clock ?st + LOG_UPDATE_INTERVAL)]"
    by simp
  then show ?thesis
    unfolding s by (simp add: LOG_UPDATE_INTERVAL_def)
qed

text \<open>
  The claim C1 as stated fails: a second batch that arrives 100 ms after the first, while
  the timer of the first (handle 1, due at 300) is set, replaces that timer by a new one
  (handle 2, due at 400). At 300 the first timer can no longer fire and the view is still
  empty; the merge comes at 400.
\<close>

theorem second_batch_replaces_timer:
  "timers (viewer_run [Received (Logs [example_record ''0.5'']), Passes 100] viewer_init)
     = [(1, 300)]
   \<and> timers (viewer_run [Received (Logs [example_record ''0.5'']), Passes 100,
                         Received (Logs [example_record ''0.7''])] viewer_init)
     = [(2, 400)]
   \<and> logs (viewer_run [Received (Logs [example_record ''0.5'']), Passes 100,
                       Received (Logs [example_record ''0.7'']), Passes 200, Fires 1]
            viewer_init)
     = []
   \<and> logs (viewer_run [Received (Logs [example_record ''0.5'']), Passes 100,
                       Received (Logs [example_record ''0.7'']), Passes 200, Fires 1,
                       Passes 100, Fires 2]
            viewer_init)
     = [example_record ''0.5'', example_record ''0.7'']"
  by (simp add: viewer_run_def viewer_step_def viewer_onmessage_def update_logs_def Let_def
        setTimeout_def clearTimeout_def truthy_def due_def viewer_init_def
        LOG_UPDATE_INTERVAL_def merge_logs_def slice_def MAX_LOGS_def)

section \<open>The view over a run of the viewer\<close>

lemma received_snoc:
  "received (es @ [e]) = received es @ (case e of Received (Logs b) \<Rightarrow> b | _ \<Rightarrow> [])"
  by (induction es rule: received.induct)
     (auto split: viewer_event.splits viewer_msg.splits)

lemma viewer_run_snoc: "viewer_run (es @ [e]) st = viewer_step (viewer_run es st) e"
  by (simp add: viewer_run_def)

lemma viewer_view_invariant:
  "\<exists>m. received es = m @ logBuffer (viewer_run es viewer_init)
       \<and> logs (viewer_run es viewer_init) = drop (length m - MAX_LOGS) m"
proof (induction es rule: rev_induct)
  case Nil
  show ?case
    by (simp add: viewer_run_def viewer_init_def)
next
  case (snoc e es)
  let ?st = "viewer_run es viewer_init"
  from snoc obtain m where m: "received es = m @ logBuffer ?st"
    "logs ?st = drop (length m - MAX_LOGS) m"
    by blast
  have i: "viewer_inv ?st"
    by (rule viewer_reachable_inv)
  show ?case
  proof (cases e)
    case (Received msg)
    show ?thesis
    proof (cases msg)
      case (Logs b)
      show ?thesis
      proof (cases "b = []")
        case True
        with Received Logs m show ?thesis
          by (auto simp add: viewer_run_snoc received_snoc viewer_step_def viewer_onmessage_def)
      next
        case False
        with Received Logs m show ?thesis
          by (simp add: viewer_run_snoc received_snoc viewer_step_def viewer_onmessage_eq [OF i False])
      qed
    next
      case Other_type
      with Received m show ?thesis
        by (auto simp add: viewer_run_snoc received_snoc viewer_step_def viewer_onmessage_def)
    qed
  next
    case (Fires h)
    show ?thesis
    proof (cases "due h ?st")
      case True
      have "logs (update_logs (clearTimeout h ?st))
              = drop (length (m @ logBuffer ?st) - MAX_LOGS) (m @ logBuffer ?st)"
        by (simp add: update_logs_def clearTimeout_def Let_def merge_logs_eq m(2) drop_last_twice
              del: append_assoc length_append drop_append)
      moreover have "logBuffer (update_logs (clearTimeout h ?st)) = []"
        by (simp add: update_logs_def Let_def)
      ultimately show ?thesis
        using Fires True m(1)
        by (simp add: viewer_run_snoc received_snoc viewer_step_def del: length_append drop_append)
    next
      case False
      with Fires m show ?thesis
        by (auto simp add: viewer_run_snoc received_snoc viewer_step_def)
    qed
  next
    case (Passes d)
    with m show ?thesis
      by (auto simp add: viewer_run_snoc received_snoc viewer_step_def)
  qed
qed

lemma viewer_view_eq:
  "logBuffer (viewer_run es viewer_init)
     = drop (length (received es) - length (logBuffer (viewer_run es viewer_init))) (received es)
   \<and> logs (viewer_run es viewer_init)
     = drop (length (received es) - length (logBuffer (viewer_run es viewer_init)) - MAX_LOGS)
         (take (length (received es) - length (logBuffer (viewer_run es viewer_init)))
            (received es))"
proof -
  obtain m where m: "received es = m @ logBuffer (viewer_run es viewer_init)"
    "logs (viewer_run es viewer_init) = drop (length m - MAX_LOGS) m"
    using viewer_view_invariant by blast
  have n: "length (received es) - length (logBuffer (viewer_run es viewer_init)) = length m"
    by (simp add: m(1))
  show ?thesis
    unfolding n by (simp add: m)
qed

text \<open>
  C2. Starting from the empty view, after any sequence of merges the view has at most
  \<open>MAX_LOGS\<close> records: it has all the records merged so far while they are at most
  \<open>MAX_LOGS\<close>, and exactly the last \<open>MAX_LOGS\<close> of them, in arrival order, once there
  are more (the oldest are dropped first). So it is in the viewer, whatever happens: of
  the records received so far the last ones are in the staging buffer, the others have
  been merged, and the view holds the last \<open>MAX_LOGS\<close> of those, in arrival order.
\<close>

theorem view_bounded_fifo:
  "length (foldl merge_logs [] batches) \<le> MAX_LOGS
   \<and> length (foldl merge_logs [] batches) = min MAX_LOGS (length (concat batches))
   \<and> foldl merge_logs [] batches
        = drop (length (concat batches) - MAX_LOGS) (concat batches)
   \<and> (let st = viewer_run es viewer_init;
           n = length (received es) - length (logBuffer st)
       in length (logs st) \<le> MAX_LOGS
          \<and> logs st = drop (n - MAX_LOGS) (take n (received es))
          \<and> logBuffer st = drop n (received es))"
proof -
  have "length (concat batches) - (length (concat batches) - MAX_LOGS)
          = min MAX_LOGS (length (concat batches))"
    by linarith
  then have f: "length (foldl merge_logs [] batches) \<le> MAX_LOGS
   \<and> length (foldl merge_logs [] batches) = min MAX_LOGS (length (concat batches))
   \<and> foldl merge_logs [] batches
        = drop (length (concat batches) - MAX_LOGS) (concat batches)"
    by (simp add: foldl_merge_logs)
  let ?st = "viewer_run es viewer_init"
  let ?n = "length (received es) - length (logBuffer ?st)"
  have v: "logs ?st = drop (?n - MAX_LOGS) (take ?n (received es))"
    and b: "logBuffer ?st = drop ?n (received es)"
    using viewer_view_eq [of es] by simp_all
  have "length (drop (?n - MAX_LOGS) (take ?n (received es))) \<le> MAX_LOGS"
    by simp
  with v have l: "length (logs ?st) \<le> MAX_LOGS"
    by simp
  from f l v b show ?thesis
    unfolding Let_def by blast
qed

end
